theory Spec2Isabelle
  imports Complex_Main "HOL-Library.Word"
begin

unbundle bit_operations_syntax

section \<open>Bytes and buffers\<close>

text \<open>
  A Python \<open>bytes\<close> value is a list of 8-bit words. Offsets and lengths are Python
  integers that never go negative in the functions below, so they are natural numbers;
  a loop guard \<open>i < len(data) - k\<close> of the source is written \<open>i + k < length data\<close>,
  which is the same comparison without the subtraction (the source's right-hand side may be
  negative, in which case the guard is false for every \<open>i\<close> from 0 on).
\<close>

type_synonym byte = "8 word"

text \<open>The tag \<open>b'GOST_SIGNATURE_V1'\<close> of the source (17 ASCII bytes).\<close>

definition uuid :: "byte list" where
  "uuid = [0x47, 0x4F, 0x53, 0x54, 0x5F, 0x53, 0x49, 0x47, 0x4E,
           0x41, 0x54, 0x55, 0x52, 0x45, 0x5F, 0x56, 0x31]"

text \<open>The four comparisons \<open>data[i] == 0 and data[i+1] == 0 and data[i+2] == 0 and
  data[i+3] == 1\<close>. Every loop of the source evaluates them under a guard that keeps
  \<open>i + 3\<close> inside the buffer.\<close>

definition start_code_at :: "byte list \<Rightarrow> nat \<Rightarrow> bool" where
  "start_code_at data i \<longleftrightarrow>
     data ! i = 0 \<and> data ! (i + 1) = 0 \<and> data ! (i + 2) = 0 \<and> data ! (i + 3) = 1"

section \<open>The metadata payload codec\<close>

text \<open>The size loop of \<open>_create_sei_payload\<close> (lines 179 to 183):
  \<^verbatim>\<open>while payload_size >= 255: append(0xFF); payload_size -= 255\<close> and then
  \<^verbatim>\<open>append(payload_size)\<close>.\<close>

function encode_payload_size :: "nat \<Rightarrow> byte list" where
  "encode_payload_size payload_size =
     (if payload_size \<ge> 255 then 0xFF # encode_payload_size (payload_size - 255)
      else [of_nat payload_size])"
  by pat_completeness auto
termination
  by (relation "measure id") auto

declare encode_payload_size.simps [simp del]

definition create_sei_payload :: "byte list \<Rightarrow> byte list" where
  "create_sei_payload signature =
     (let payload_data = uuid @ signature in
      [0x00, 0x00, 0x00, 0x01] @ [0x06] @ [0x05]
        @ encode_payload_size (length payload_data)
        @ payload_data @ [0x80])"

text \<open>\<open>_find_next_start_code\<close>: the first start code at an offset from \<open>start_pos\<close> on and
  below \<open>len(data) - 4\<close>; the source's \<open>-1\<close> is \<open>None\<close>.\<close>

function find_next_start_code :: "byte list \<Rightarrow> nat \<Rightarrow> nat option" where
  "find_next_start_code data i =
     (if i + 4 < length data then
        (if start_code_at data i then Some i else find_next_start_code data (i + 1))
      else None)"
  by pat_completeness auto
termination
  by (relation "measure (\<lambda>(data, i). length data - i)") auto

declare find_next_start_code.simps [simp del]

text \<open>The two reading loops of \<open>_parse_sei_and_get_length\<close> (lines 375 to 383 for the
  message type, 386 to 394 for the size) are the same code: add 255 for every \<open>0xFF\<close>
  byte, then add the first other byte and step past it; running off the end of the buffer
  is the source's \<open>return None, 0\<close>.\<close>

function read_ff :: "byte list \<Rightarrow> nat \<Rightarrow> nat \<Rightarrow> nat \<times> nat" where
  "read_ff data pos acc =
     (if pos < length data \<and> data ! pos = 0xFF then read_ff data (pos + 1) (acc + 255)
      else (acc, pos))"
  by pat_completeness auto
termination
  by (relation "measure (\<lambda>(data, pos, acc). length data - pos)") auto

declare read_ff.simps [simp del]

definition read_chunked :: "byte list \<Rightarrow> nat \<Rightarrow> (nat \<times> nat) option" where
  "read_chunked data pos =
     (case read_ff data pos 0 of
        (acc, p) \<Rightarrow> if p < length data then Some (acc + unat (data ! p), p + 1) else None)"

text \<open>The counting loops of lines 413 to 424:
  \<^verbatim>\<open>n = 1; while temp >= 255: n += 1; temp -= 255\<close>.\<close>

function count_field_bytes :: "nat \<Rightarrow> nat \<Rightarrow> nat" where
  "count_field_bytes temp n =
     (if temp \<ge> 255 then count_field_bytes (temp - 255) (n + 1) else n)"
  by pat_completeness auto
termination
  by (relation "measure (\<lambda>(temp, n). temp)") auto

declare count_field_bytes.simps [simp del]

text \<open>\<open>_parse_sei_and_get_length\<close> returns the pair \<open>(signature, sei_length)\<close>, or
  \<open>(None, 0)\<close>.\<close>

definition parse_sei_and_get_length :: "byte list \<Rightarrow> nat \<Rightarrow> byte list option \<times> nat" where
  "parse_sei_and_get_length video_data start_pos =
     (let pos = start_pos + 4 in
      if pos \<ge> length video_data then (None, 0)
      else
        (case read_chunked video_data (pos + 1) of
           None \<Rightarrow> (None, 0)
         | Some (payload_type, pos1) \<Rightarrow>
             (case read_chunked video_data pos1 of
                None \<Rightarrow> (None, 0)
              | Some (payload_size, pos2) \<Rightarrow>
                  if payload_type = 5 \<and> pos2 + payload_size \<le> length video_data then
                    (let payload_data = take payload_size (drop pos2 video_data) in
                     if take (length uuid) payload_data = uuid then
                       (let signature = drop (length uuid) payload_data in
                        if length signature = 64 then
                          (Some signature,
                           4 + 1 + count_field_bytes payload_type 1
                             + count_field_bytes payload_size 1 + payload_size + 1)
                        else (None, 0))
                     else (None, 0))
                  else (None, 0))))"

section \<open>The insertion point selector\<close>

text \<open>One pass of the body of the loop of \<open>_find_best_insertion_point\<close> at a start code
  (lines 207 to 223): the offset returned from inside the loop, if any, and the two flags
  afterwards. The branches are the source's \<open>if\<close>/\<open>elif\<close> chain, in its order.\<close>

definition classify_unit :: "byte list \<Rightarrow> nat \<Rightarrow> bool \<Rightarrow> bool \<Rightarrow> nat option \<times> bool \<times> bool" where
  "classify_unit video_data i sps_found pps_found =
     (let nal_unit_type = video_data ! (i + 4) AND 0x1F in
      if nal_unit_type = 7 then (None, True, pps_found)
      else if nal_unit_type = 8 then (None, sps_found, True)
      else if nal_unit_type = 1 \<and> sps_found \<and> pps_found then (Some i, sps_found, pps_found)
      else if nal_unit_type = 6 then
        (find_next_start_code video_data (i + 4), sps_found, pps_found)
      else (None, sps_found, pps_found))"

text \<open>The loop either returns an offset or runs out (its guard fails, or \<open>break\<close>) with
  the two flags it has collected.\<close>

datatype scan_result = Return nat | Exhausted bool bool

function find_best_loop :: "byte list \<Rightarrow> nat \<Rightarrow> bool \<Rightarrow> bool \<Rightarrow> scan_result" where
  "find_best_loop video_data i sps_found pps_found =
     (if i + 8 < length video_data then
        (if start_code_at video_data i then
           (case classify_unit video_data i sps_found pps_found of
              (Some r, sps, pps) \<Rightarrow> Return r
            | (None, sps, pps) \<Rightarrow>
                (case find_next_start_code video_data (i + 4) of
                   None \<Rightarrow> Exhausted sps pps
                 | Some next_start \<Rightarrow> find_best_loop video_data next_start sps pps))
         else find_best_loop video_data (i + 1) sps_found pps_found)
      else Exhausted sps_found pps_found)"
  by pat_completeness auto
termination
proof -
  have ge: "find_next_start_code d s = Some n \<Longrightarrow> s \<le> n \<and> n + 4 < length d" for d s n
    by (induction d s rule: find_next_start_code.induct)
       (subst (asm) find_next_start_code.simps, auto split: if_splits)
  show ?thesis
    by (relation "measure (\<lambda>(data, i, s, p). length data - i)") (auto dest!: ge)
qed

declare find_best_loop.simps [simp del]

function find_position_loop :: "byte list \<Rightarrow> nat \<Rightarrow> nat \<Rightarrow> nat" where
  "find_position_loop video_data i last_sps_pps_pos =
     (if i + 8 < length video_data then
        (if start_code_at video_data i then
           (let nal_unit_type = video_data ! (i + 4) AND 0x1F in
            if nal_unit_type = 7 \<or> nal_unit_type = 8 then
              (case find_next_start_code video_data (i + 4) of
                 Some next_start \<Rightarrow>
                   (let nal_unit_type_next = video_data ! (next_start + 4) AND 0x1F in
                    if nal_unit_type_next \<noteq> 7 \<and> nal_unit_type_next \<noteq> 8 then next_start
                    else find_position_loop video_data (i + 4) i)
               | None \<Rightarrow> find_position_loop video_data (i + 4) i)
            else find_position_loop video_data (i + 4) last_sps_pps_pos)
         else find_position_loop video_data (i + 1) last_sps_pps_pos)
      else last_sps_pps_pos + 100)"
  by pat_completeness auto
termination
  by (relation "measure (\<lambda>(data, i, l). length data - i)") auto

declare find_position_loop.simps [simp del]

definition find_position_after_sps_pps :: "byte list \<Rightarrow> nat" where
  "find_position_after_sps_pps video_data = find_position_loop video_data 0 0"

definition find_best_insertion_point :: "byte list \<Rightarrow> nat" where
  "find_best_insertion_point video_data =
     (case find_best_loop video_data 0 False False of
        Return r \<Rightarrow> r
      | Exhausted sps_found pps_found \<Rightarrow>
          if sps_found \<and> pps_found then find_position_after_sps_pps video_data else 0)"

section \<open>The embedder\<close>

text \<open>\<open>_embed_in_sei_messages\<close>. The comparison of the insertion point with \<open>-1\<close> is kept,
  on the integer the selector returns; Python's \<open>data[:k]\<close> and \<open>data[k:]\<close> for
  \<open>k \<ge> 0\<close> are \<open>take k\<close> and \<open>drop k\<close>, also for \<open>k\<close> beyond the end.\<close>

definition embed_in_sei_messages :: "byte list \<Rightarrow> byte list \<Rightarrow> byte list" where
  "embed_in_sei_messages video_data signature =
     (let sei_payload = create_sei_payload signature;
          insertion_point = int (find_best_insertion_point video_data);
          insertion_point = (if insertion_point = - 1 then 0 else insertion_point)
      in take (nat insertion_point) video_data @ sei_payload
           @ drop (nat insertion_point) video_data)"

section \<open>The extractor\<close>

text \<open>Lines 328 to 351: at a start code whose unit has type 6 the unit is parsed, and the
  loop returns when \<open>signature and sei_length > 0\<close> holds (a \<open>bytes\<close> value is true when
  it is not empty).\<close>

definition try_sei :: "byte list \<Rightarrow> nat \<Rightarrow> (byte list \<times> byte list) option" where
  "try_sei watermarked_data i =
     (let nal_unit_type = watermarked_data ! (i + 4) AND 0x1F in
      if nal_unit_type = 6 then
        (case parse_sei_and_get_length watermarked_data i of
           (Some signature, sei_length) \<Rightarrow>
             if signature \<noteq> [] \<and> sei_length > 0 then
               Some (signature,
                     take i watermarked_data @ drop (i + sei_length) watermarked_data)
             else None
         | (None, sei_length) \<Rightarrow> None)
      else None)"

function extract_loop :: "byte list \<Rightarrow> nat \<Rightarrow> (byte list \<times> byte list) option" where
  "extract_loop watermarked_data i =
     (if i + 20 < length watermarked_data then
        (if start_code_at watermarked_data i then
           (case try_sei watermarked_data i of
              Some r \<Rightarrow> Some r
            | None \<Rightarrow>
                (case find_next_start_code watermarked_data (i + 4) of
                   None \<Rightarrow> None
                 | Some next_start \<Rightarrow> extract_loop watermarked_data next_start))
         else extract_loop watermarked_data (i + 1))
      else None)"
  by pat_completeness auto
termination
proof -
  have ge: "find_next_start_code d s = Some n \<Longrightarrow> s \<le> n \<and> n + 4 < length d" for d s n
    by (induction d s rule: find_next_start_code.induct)
       (subst (asm) find_next_start_code.simps, auto split: if_splits)
  show ?thesis
    by (relation "measure (\<lambda>(data, i). length data - i)") (auto dest!: ge)
qed

declare extract_loop.simps [simp del]

text \<open>\<open>_extract_signature_and_remove_watermark\<close>: \<open>Some (signature, restored_data)\<close>, or
  \<open>None\<close> for the source's \<open>(None, None)\<close>.\<close>

definition extract_signature_and_remove_watermark ::
    "byte list \<Rightarrow> (byte list \<times> byte list) option" where
  "extract_signature_and_remove_watermark watermarked_data = extract_loop watermarked_data 0"

text \<open>\<open>embed_signature_as_watermark\<close> reads the input file, embeds and writes the result.
  The file system is outside the model: the argument is the content of the input file
  (\<open>None\<close> when it cannot be read, which the source's exception handler turns into the
  result \<open>None\<close>), and the result is the content written to the output file, whose path
  the source returns.\<close>

definition embed_signature_as_watermark :: "byte list option \<Rightarrow> byte list \<Rightarrow> byte list option" where
  "embed_signature_as_watermark input_video signature =
     (case input_video of
        None \<Rightarrow> None
      | Some original_data \<Rightarrow> Some (embed_in_sei_messages original_data signature))"

section \<open>Self-contained verification\<close>

text \<open>The fields of \<open>GOSTVideoSteganographer\<close>; \<open>sign_obj\<close> records whether the signer
  object of the external library has been created.\<close>

record steganographer =
  private_key :: "byte list option"
  public_key :: "byte list option"
  sign_obj :: bool

datatype error = ValueError

text \<open>\<open>extract_signature_and_restore_video\<close>, on the content of the watermarked file
  (\<open>None\<close> when it cannot be read). The source writes the restored bytes to a file and
  returns the signature and that file's path; the model returns the signature and the
  bytes written. The test \<open>signature and restored_data\<close> is false for an empty value.\<close>

definition extract_signature_and_restore_video ::
    "byte list option \<Rightarrow> (byte list \<times> byte list) option" where
  "extract_signature_and_restore_video watermarked_video =
     (case watermarked_video of
        None \<Rightarrow> None
      | Some watermarked_data \<Rightarrow>
          (case extract_signature_and_remove_watermark watermarked_data of
             None \<Rightarrow> None
           | Some (signature, restored_data) \<Rightarrow>
               if signature \<noteq> [] \<and> restored_data \<noteq> [] then Some (signature, restored_data)
               else None))"

text \<open>\<open>verify_video\<close>. The hash function and the signature check belong to the external
  library and are parameters: \<open>streebog\<close> maps the content of a file to its digest, and
  \<open>gost_verify public_key digest signature\<close> is the answer of the library, \<open>None\<close> when
  it raises (the source then answers \<open>False\<close>).\<close>

definition verify_video ::
    "(byte list \<Rightarrow> byte list \<Rightarrow> byte list \<Rightarrow> bool option) \<Rightarrow> (byte list \<Rightarrow> byte list)
      \<Rightarrow> steganographer \<Rightarrow> byte list \<Rightarrow> byte list \<Rightarrow> error + bool" where
  "verify_video gost_verify streebog self video signature =
     (case public_key self of
        None \<Rightarrow> Inl ValueError
      | Some pk \<Rightarrow>
          if \<not> sign_obj self then Inl ValueError
          else
            (let video_hash = streebog video in
             case gost_verify pk video_hash signature of
               None \<Rightarrow> Inr False
             | Some result \<Rightarrow> Inr result))"

text \<open>\<open>verify_watermarked_video_self_contained\<close>: the value returned (or the exception
  that leaves the function), and the two sizes it prints, expected and actual. The size of
  a file is the length of its content; the watermarked file has been read when the
  sizes are computed, so its content is there.\<close>

definition verify_watermarked_video_self_contained ::
    "(byte list \<Rightarrow> byte list \<Rightarrow> byte list \<Rightarrow> bool option) \<Rightarrow> (byte list \<Rightarrow> byte list)
      \<Rightarrow> steganographer \<Rightarrow> byte list option \<Rightarrow> (error + bool) \<times> int list" where
  "verify_watermarked_video_self_contained gost_verify streebog self watermarked_video =
     (case extract_signature_and_restore_video watermarked_video of
        None \<Rightarrow> (Inr False, [])
      | Some (signature, restored_video) \<Rightarrow>
          (case verify_video gost_verify streebog self restored_video signature of
             Inl e \<Rightarrow> (Inl e, [])
           | Inr is_valid \<Rightarrow>
               (let original_size =
                      int (length (the watermarked_video)) - int (length signature) - 16 - 11;
                    restored_size = int (length restored_video)
                in (Inr is_valid, [original_size, restored_size]))))"

section \<open>Notions used by the statements\<close>

text \<open>A unit of type \<open>t\<close> starts at offset \<open>j\<close>: a four-byte start code lies there and
  the low five bits of the byte behind it are \<open>t\<close>.\<close>

definition unit_at :: "byte list \<Rightarrow> nat \<Rightarrow> byte \<Rightarrow> bool" where
  "unit_at data j t \<longleftrightarrow>
     j + 4 < length data \<and> start_code_at data j \<and> data ! (j + 4) AND 0x1F = t"

text \<open>A coded slice (type 1) that starts behind a unit of type 7 and a unit of type 8, and
  the first such slice of a buffer.\<close>

definition qualifying_slice :: "byte list \<Rightarrow> nat \<Rightarrow> bool" where
  "qualifying_slice data k \<longleftrightarrow>
     unit_at data k 1 \<and> (\<exists>s<k. unit_at data s 7) \<and> (\<exists>p<k. unit_at data p 8)"

definition first_qualifying_slice :: "byte list \<Rightarrow> nat \<Rightarrow> bool" where
  "first_qualifying_slice data k \<longleftrightarrow>
     qualifying_slice data k \<and> (\<forall>k'<k. \<not> qualifying_slice data k')"

definition no_sei_before :: "byte list \<Rightarrow> nat \<Rightarrow> bool" where
  "no_sei_before data k \<longleftrightarrow> (\<forall>j<k. \<not> unit_at data j 6)"

text \<open>A run of parameter sets ends behind the unit at \<open>j\<close>: that unit has type 7 or 8
  and starts more than eight bytes before the end, and the next start code opens a unit of
  another type; the value is the offset of that start code. The first run end is the one
  with the least \<open>j\<close>.\<close>

definition run_end :: "byte list \<Rightarrow> nat \<Rightarrow> nat option" where
  "run_end data j =
     (if j + 8 < length data \<and> (unit_at data j 7 \<or> unit_at data j 8) then
        (case find_next_start_code data (j + 4) of
           None \<Rightarrow> None
         | Some n \<Rightarrow> if unit_at data n 7 \<or> unit_at data n 8 then None else Some n)
      else None)"

definition first_run_end :: "byte list \<Rightarrow> nat \<Rightarrow> nat \<Rightarrow> bool" where
  "first_run_end data j n \<longleftrightarrow> run_end data j = Some n \<and> (\<forall>j'<j. run_end data j' = None)"

text \<open>The tag does not occur in the first \<open>n\<close> bytes of a buffer.\<close>

definition tag_free_before :: "byte list \<Rightarrow> nat \<Rightarrow> bool" where
  "tag_free_before data n \<longleftrightarrow> (\<forall>p. p + 17 \<le> n \<longrightarrow> take 17 (drop p data) \<noteq> uuid)"

text \<open>A unit at \<open>j\<close> validates: it has type 6, message type 5, declared size 81 and the
  tag in the first 17 bytes of its payload, and the 81 payload bytes lie inside the
  buffer.\<close>

definition validates :: "byte list \<Rightarrow> nat \<Rightarrow> bool" where
  "validates data j \<longleftrightarrow>
     unit_at data j 6 \<and> j + 88 \<le> length data \<and> data ! (j + 5) = 5 \<and> data ! (j + 6) = 81
     \<and> take 17 (drop (j + 7) data) = uuid"

definition first_valid_unit :: "byte list \<Rightarrow> nat \<Rightarrow> bool" where
  "first_valid_unit data j \<longleftrightarrow> validates data j \<and> (\<forall>k<j. \<not> validates data k)"

section \<open>The chunked length codec\<close>

lemma encode_payload_size_eq:
  "encode_payload_size v = replicate (v div 255) 0xFF @ [of_nat (v mod 255)]"
proof (induction v rule: encode_payload_size.induct)
  case (1 v)
  show ?case
  proof (cases "v \<ge> 255")
    case True
    then have d: "v div 255 = Suc ((v - 255) div 255)" and m: "v mod 255 = (v - 255) mod 255"
      by (simp_all add: le_div_geq le_mod_geq)
    from True 1 show ?thesis
      by (subst encode_payload_size.simps) (simp add: d m)
  next
    case False
    then show ?thesis
      by (subst encode_payload_size.simps) simp
  qed
qed

lemma encode_payload_size_length: "length (encode_payload_size v) = v div 255 + 1"
  by (simp add: encode_payload_size_eq)

lemma read_ff_replicate:
  "b \<noteq> 0xFF \<Longrightarrow>
   read_ff (pre @ replicate k 0xFF @ b # post) (length pre) acc
     = (acc + 255 * k, length pre + k)"
proof (induction k arbitrary: pre acc)
  case 0
  then show ?case by (subst read_ff.simps) simp
next
  case (Suc k)
  have "read_ff (pre @ replicate (Suc k) 0xFF @ b # post) (length pre) acc
        = read_ff ((pre @ [0xFF]) @ replicate k 0xFF @ b # post) (length (pre @ [0xFF])) (acc + 255)"
    by (subst read_ff.simps) simp
  also have "\<dots> = (acc + 255 + 255 * k, length (pre @ [0xFF]) + k)"
    using Suc.IH [OF Suc.prems] by blast
  finally show ?case by simp
qed

lemma read_chunked_terminal:
  assumes "b \<noteq> 0xFF"
  shows "read_chunked (pre @ replicate k 0xFF @ b # post) (length pre)
           = Some (255 * k + unat b, length pre + k + 1)"
proof -
  have "(pre @ replicate k 0xFF @ b # post) ! (length pre + k) = b"
    by (simp add: nth_append)
  then show ?thesis
    by (simp add: read_chunked_def read_ff_replicate [OF assms])
qed

lemma terminal_byte: "unat (of_nat (v mod 255) :: byte) = v mod 255"
proof -
  have "v mod 255 < 256"
    by (rule less_trans [of _ 255]) simp_all
  then show ?thesis by (simp add: unat_of_nat)
qed

lemma terminal_byte_not_ff: "(of_nat (v mod 255) :: byte) \<noteq> 0xFF"
proof
  assume "(of_nat (v mod 255) :: byte) = 0xFF"
  then have "unat (of_nat (v mod 255) :: byte) = unat (0xFF :: byte)" by simp
  then have "v mod 255 = 255" by (simp only: terminal_byte) simp
  moreover have "v mod 255 < 255" by simp
  ultimately show False by simp
qed

lemma read_chunked_encode:
  "read_chunked (pre @ encode_payload_size v @ post) (length pre)
     = Some (v, length pre + length (encode_payload_size v))"
  using read_chunked_terminal [OF terminal_byte_not_ff, of pre "v div 255" v post]
  by (simp add: encode_payload_size_eq terminal_byte)

lemma ceil_255: "int (v div 255 + 1) = \<lceil>(real v + 1) / 255\<rceil>"
proof -
  have a: "real v = 255 * real (v div 255) + real (v mod 255)"
    by (metis mult_div_mod_eq of_nat_add of_nat_mult of_nat_numeral)
  have b: "real (v mod 255) < 255"
    by (metis of_nat_less_iff of_nat_numeral mod_less_divisor zero_less_numeral)
  have "\<lceil>(real v + 1) / 255\<rceil> = int (v div 255 + 1)"
  proof (rule ceiling_unique)
    show "of_int (int (v div 255 + 1)) - 1 < (real v + 1) / 255"
      using a b by (simp add: field_simps)
    have "real (v mod 255) + 1 \<le> 255" 
      using b by (metis Suc_leI mod_less_divisor of_nat_Suc of_nat_le_iff of_nat_numeral zero_less_numeral add.commute)
    then show "(real v + 1) / 255 \<le> of_int (int (v div 255 + 1))"
      using a by (simp add: field_simps)
  qed
  then show ?thesis by simp
qed

text \<open>
  Claim C2. For every non-negative integer \<open>v\<close>, reading the chunked-length encoding of
  \<open>v\<close> back (whatever bytes stand before and after it in the buffer) yields \<open>v\<close> and
  stops right behind the encoding; the encoding is \<open>v div 255\<close> bytes \<open>0xFF\<close> followed
  by one terminal byte in the range 0 to 254, and its length is the ceiling of
  \<open>(v + 1) / 255\<close>.
\<close>

theorem chunked_length_codec:
  "read_chunked (pre @ encode_payload_size v @ post) (length pre)
     = Some (v, length pre + length (encode_payload_size v))
   \<and> encode_payload_size v = replicate (v div 255) 0xFF @ [of_nat (v mod 255)]
   \<and> unat (of_nat (v mod 255) :: byte) \<le> 254
   \<and> int (length (encode_payload_size v)) = \<lceil>(real v + 1) / 255\<rceil>"
proof -
  have "v mod 255 \<le> 254"
    using mod_less_divisor [of 255 v] by linarith
  then have "unat (of_nat (v mod 255) :: byte) \<le> 254"
    by (simp only: terminal_byte)
  moreover have "int (length (encode_payload_size v)) = \<lceil>(real v + 1) / 255\<rceil>"
    using ceil_255 [of v] by (simp only: encode_payload_size_length)
  ultimately show ?thesis
    using read_chunked_encode encode_payload_size_eq by blast
qed

section \<open>Decoding an encoded unit\<close>

lemma length_uuid: "length uuid = 17"
  by (simp add: uuid_def)

lemma count_field_bytes_small: "v < 255 \<Longrightarrow> count_field_bytes v n = n"
  by (subst count_field_bytes.simps) simp

lemma encode_81: "encode_payload_size 81 = [81]"
  by (subst encode_payload_size.simps) simp

lemma read_chunked_terminal_at:
  assumes "b \<noteq> 0xFF" and "data = xs @ replicate k 0xFF @ b # ys" and "pos = length xs"
  shows "read_chunked data pos = Some (255 * k + unat b, pos + k + 1)"
  using read_chunked_terminal [OF assms(1), of xs k ys] assms(2,3) by simp

lemma read_chunked_encode_at:
  assumes "data = xs @ encode_payload_size v @ ys" and "pos = length xs"
  shows "read_chunked data pos = Some (v, pos + length (encode_payload_size v))"
  using read_chunked_encode [of xs v ys] assms by simp

lemma parse_sei_steps:
  assumes "start_pos + 4 < length data"
    and "read_chunked data (start_pos + 4 + 1) = Some (t, p1)"
    and "read_chunked data p1 = Some (sz, p2)"
  shows "parse_sei_and_get_length data start_pos =
           (if t = 5 \<and> p2 + sz \<le> length data
               \<and> take 17 (take sz (drop p2 data)) = uuid
               \<and> length (drop 17 (take sz (drop p2 data))) = 64
            then (Some (drop 17 (take sz (drop p2 data))),
                  4 + 1 + count_field_bytes t 1 + count_field_bytes sz 1 + sz + 1)
            else (None, 0))"
  using assms by (auto simp add: parse_sei_and_get_length_def Let_def length_uuid min_def)

lemma parse_tagged_unit:
  "parse_sei_and_get_length
     (pre @ [0, 0, 0, 1, h, 5] @ encode_payload_size (17 + length S) @ uuid @ S @ rest)
     (length pre)
   = (if length S = 64 then (Some S, 89) else (None, 0))"
proof -
  define n where "n = 17 + length S"
  define data where "data = pre @ [0, 0, 0, 1, h, 5] @ encode_payload_size n @ uuid @ S @ rest"
  have r1: "read_chunked data (length pre + 4 + 1) = Some (5, length pre + 6)"
    using read_chunked_terminal_at [where b = 5 and data = data and pos = "length pre + 4 + 1"
        and xs = "pre @ [0, 0, 0, 1, h]" and k = 0
        and ys = "encode_payload_size n @ uuid @ S @ rest"]
    by (simp add: data_def)
  define p where "p = length pre + 6 + length (encode_payload_size n)"
  have r2: "read_chunked data (length pre + 6) = Some (n, p)"
    using read_chunked_encode_at [where data = data and pos = "length pre + 6"
        and xs = "pre @ [0, 0, 0, 1, h, 5]" and v = n and ys = "uuid @ S @ rest"]
    by (simp add: data_def p_def)
  have d3: "data = (pre @ [0, 0, 0, 1, h, 5] @ encode_payload_size n) @ (uuid @ S) @ rest"
    by (simp add: data_def)
  have lp: "length (pre @ [0, 0, 0, 1, h, 5] @ encode_payload_size n) = p"
    by (simp add: p_def)
  have dr: "drop p data = (uuid @ S) @ rest"
    unfolding d3 using lp by (metis append_eq_conv_conj)
  have ln: "length (uuid @ S) = n"
    by (simp add: n_def length_uuid)
  have pay: "take n (drop p data) = uuid @ S"
    unfolding dr using ln by (metis append_eq_conv_conj)
  have fits: "p + n \<le> length data"
    unfolding d3 using lp ln by (metis length_append le_add1 add.assoc)
  have pos: "length pre + 4 < length data"
    by (simp add: data_def)
  have c5: "count_field_bytes 5 1 = 1"
    by (simp add: count_field_bytes_small)
  have res: "parse_sei_and_get_length data (length pre)
        = (if length S = 64 then (Some S, 4 + 1 + 1 + count_field_bytes n 1 + n + 1) else (None, 0))"
    unfolding parse_sei_steps [OF pos r1 r2] pay
    using fits c5 by (simp add: length_uuid)
  show ?thesis
  proof (cases "length S = 64")
    case True
    then have "n = 81" by (simp add: n_def)
    then have "count_field_bytes n 1 = 1" by (simp add: count_field_bytes_small)
    with res True \<open>n = 81\<close> show ?thesis
      by (simp add: data_def n_def)
  next
    case False
    with res show ?thesis by (simp add: data_def n_def)
  qed
qed

lemma create_sei_payload_eq:
  "create_sei_payload S
     = [0, 0, 0, 1, 6, 5] @ encode_payload_size (17 + length S) @ uuid @ S @ [0x80]"
  by (simp add: create_sei_payload_def Let_def length_uuid)

lemma create_sei_payload_length:
  "length (create_sei_payload S) = 25 + (17 + length S) div 255 + length S"
  by (simp add: create_sei_payload_eq encode_payload_size_length length_uuid)

lemma create_sei_payload_64:
  "length S = 64 \<Longrightarrow> create_sei_payload S = [0, 0, 0, 1, 6, 5, 81] @ uuid @ S @ [0x80]"
  by (simp add: create_sei_payload_eq encode_81)

lemma parse_created_unit:
  "parse_sei_and_get_length (pre @ create_sei_payload S @ post) (length pre)
     = (if length S = 64 then (Some S, 89) else (None, 0))"
  using parse_tagged_unit [of pre 6 S "0x80 # post"]
  by (simp add: create_sei_payload_eq)

text \<open>
  Claim C3. At an offset where a unit built by the encoder from a 64-byte signature begins,
  the parser succeeds, and the length it returns is 4 (start code) + 1 (header) + the bytes
  of the type field + the bytes of the size field + 81 (payload) + 1 (trailing byte); this
  is the number of bytes of the encoded unit, so that deleting the span from the start
  offset over that length removes the inserted unit and nothing else.
\<close>

theorem parsed_length_is_unit_length:
  assumes "length S = 64"
  shows "parse_sei_and_get_length (pre @ create_sei_payload S @ post) (length pre)
           = (Some S, 4 + 1 + length (encode_payload_size 5)
                        + length (encode_payload_size 81) + 81 + 1)
         \<and> length (create_sei_payload S)
           = 4 + 1 + length (encode_payload_size 5) + length (encode_payload_size 81) + 81 + 1
         \<and> take (length pre) (pre @ create_sei_payload S @ post)
             @ drop (length pre + length (create_sei_payload S)) (pre @ create_sei_payload S @ post)
           = pre @ post"
proof -
  have l: "length (create_sei_payload S) = 89"
    using assms by (simp add: create_sei_payload_length)
  have e: "length (encode_payload_size 5) = 1" "length (encode_payload_size 81) = 1"
    by (simp_all add: encode_payload_size_length)
  have p: "parse_sei_and_get_length (pre @ create_sei_payload S @ post) (length pre) = (Some S, 89)"
    using assms by (simp add: parse_created_unit)
  have d: "drop (length pre + length (create_sei_payload S)) (pre @ create_sei_payload S @ post) = post"
    by (simp add: drop_append)
  show ?thesis
    unfolding p d by (simp add: e l)
qed

theorem parsed_length_is_unit_length_witness:
  "parse_sei_and_get_length ([9, 9] @ create_sei_payload (replicate 64 0xAB) @ [7]) (length [9, 9 :: byte])
     = (Some (replicate 64 0xAB), 89)
   \<and> length (create_sei_payload (replicate 64 0xAB)) = 89"
  using parsed_length_is_unit_length [of "replicate 64 0xAB" "[9, 9]" "[7]"]
  by (simp add: encode_payload_size_length)

section \<open>Embedding\<close>

lemma embed_in_sei_messages_eq:
  "embed_in_sei_messages B S
     = take (find_best_insertion_point B) B @ create_sei_payload S
         @ drop (find_best_insertion_point B) B"
  by (simp add: embed_in_sei_messages_def Let_def)

text \<open>
  Claim C4. For every buffer \<open>B\<close> and 64-byte signature \<open>S\<close>, embedding returns
  \<open>B[0:offset] ++ unit ++ B[offset:]\<close>, where \<open>offset\<close> is the selected insertion
  point; the encoded unit is 89 bytes long, so the result is 89 bytes longer than \<open>B\<close>.
  The embedder is a function of \<open>B\<close> and \<open>S\<close> and has nothing else to change.
\<close>

theorem embed_splices_unit:
  assumes "length S = 64"
  shows "embed_in_sei_messages B S
           = take (find_best_insertion_point B) B @ create_sei_payload S
               @ drop (find_best_insertion_point B) B
         \<and> length (create_sei_payload S) = 89
         \<and> length (embed_in_sei_messages B S) = length B + 89"
proof -
  have l: "length (create_sei_payload S) = 89"
    using assms by (simp add: create_sei_payload_length)
  have "length (embed_in_sei_messages B S) = length B + 89"
    unfolding embed_in_sei_messages_eq using l by simp
  with l show ?thesis
    using embed_in_sei_messages_eq by blast
qed

theorem embed_splices_unit_witness:
  "embed_in_sei_messages [1, 2, 3] (replicate 64 0xAB)
     = create_sei_payload (replicate 64 0xAB) @ [1, 2, 3]
   \<and> length (embed_in_sei_messages [1, 2, 3] (replicate 64 0xAB)) = 92"
proof -
  have ip: "find_best_insertion_point [1, 2, 3] = 0"
    by code_simp
  show ?thesis
    using embed_splices_unit [of "replicate 64 0xAB" "[1, 2, 3]"] by (simp add: ip)
qed

text \<open>
  Claim C5, as stated, fails: a signature of 63 bytes is not rejected. Embedding it into
  a readable input file succeeds, and the output holds the unit built from it.
\<close>

theorem embed_short_signature_counterexample:
  "length (replicate 63 (0xAB :: byte)) \<noteq> 64
   \<and> embed_signature_as_watermark (Some [1, 2, 3]) (replicate 63 0xAB)
       = Some ([0, 0, 0, 1, 6, 5, 80] @ uuid @ replicate 63 0xAB @ [0x80] @ [1, 2, 3])"
proof -
  have ip: "find_best_insertion_point [1, 2, 3] = 0"
    by code_simp
  have e: "encode_payload_size 80 = [80]"
    by (subst encode_payload_size.simps) simp
  show ?thesis
    by (simp add: embed_signature_as_watermark_def embed_in_sei_messages_eq ip
        create_sei_payload_eq e)
qed

text \<open>
  Claim C5, amended. The embedder has no check of the signature's length: for every
  readable input \<open>B\<close> and every signature \<open>S\<close> of any length, embedding succeeds and
  returns \<open>B\<close> with the unit built from \<open>S\<close> spliced in at the selected offset, the
  unit being start code, header 6, message type 5, the chunked length of \<open>17 + len(S)\<close>,
  the tag, \<open>S\<close> and the trailing byte. The length is looked at by the decoder only:
  parsing that unit gives \<open>S\<close> back when \<open>S\<close> has 64 bytes and finds nothing otherwise.
\<close>

theorem embed_accepts_any_signature_length:
  "embed_signature_as_watermark (Some B) S
     = Some (take (find_best_insertion_point B) B @ create_sei_payload S
               @ drop (find_best_insertion_point B) B)
   \<and> create_sei_payload S
       = [0, 0, 0, 1, 6, 5] @ encode_payload_size (17 + length S) @ uuid @ S @ [0x80]
   \<and> parse_sei_and_get_length (pre @ create_sei_payload S @ post) (length pre)
       = (if length S = 64 then (Some S, 89) else (None, 0))"
  unfolding embed_signature_as_watermark_def option.case
  using embed_in_sei_messages_eq create_sei_payload_eq parse_created_unit by blast

lemma try_sei_tagged_unit:
  assumes "length S = 64" and "h AND 0x1F = 6"
  shows "try_sei (pre @ [0, 0, 0, 1, h, 5, 81] @ uuid @ S @ rest) (length pre)
           = Some (S, pre @ drop 1 rest)"
proof -
  define data where "data = pre @ [0, 0, 0, 1, h, 5, 81] @ uuid @ S @ rest"
  have p: "parse_sei_and_get_length data (length pre) = (Some S, 89)"
    using parse_tagged_unit [of pre h S rest] assms(1) by (simp add: data_def encode_81)
  have h: "data ! (length pre + 4) = h"
    by (simp add: data_def nth_append)
  have ne: "S \<noteq> []"
    using assms(1) by auto
  have d: "data = (pre @ [0, 0, 0, 1, h, 5, 81] @ uuid @ S) @ rest"
    by (simp add: data_def)
  have l: "length (pre @ [0, 0, 0, 1, h, 5, 81] @ uuid @ S) = length pre + 88"
    using assms(1) by (simp add: length_uuid)
  have "drop (length pre + 88) data = rest"
    unfolding d using l by (metis append_eq_conv_conj)
  then have "drop (length pre + 89) data = drop 1 rest"
    using drop_drop [of 1 "length pre + 88" data] by (simp add: add.commute)
  moreover have "take (length pre) data = pre"
    by (simp add: data_def)
  ultimately show ?thesis
    unfolding data_def [symmetric]
    by (simp add: try_sei_def Let_def h assms(2) p ne)
qed

section \<open>Start codes and the inverse of the reader\<close>

lemma find_next_start_code_Some:
  "find_next_start_code data s = Some n \<Longrightarrow>
     s \<le> n \<and> n + 4 < length data \<and> start_code_at data n
     \<and> (\<forall>k. s \<le> k \<and> k < n \<longrightarrow> \<not> start_code_at data k)"
proof (induction data s rule: find_next_start_code.induct)
  case (1 data i)
  from "1.prems" have g: "i + 4 < length data"
    by (subst (asm) find_next_start_code.simps) (simp split: if_splits)
  show ?case
  proof (cases "start_code_at data i")
    case True
    with g "1.prems" have "n = i"
      by (subst (asm) find_next_start_code.simps) simp
    with g True show ?thesis by auto
  next
    case False
    with g "1.prems" have "find_next_start_code data (i + 1) = Some n"
      by (subst (asm) find_next_start_code.simps) simp
    from "1.IH" [OF g False this]
    have ih: "i + 1 \<le> n" "n + 4 < length data" "start_code_at data n"
      "\<forall>k. i + 1 \<le> k \<and> k < n \<longrightarrow> \<not> start_code_at data k"
      by blast+
    have "\<not> start_code_at data k" if "i \<le> k" "k < n" for k
    proof (cases "k = i")
      case True
      with False show ?thesis by simp
    next
      case False
      with that have "i + 1 \<le> k" by simp
      with ih(4) that show ?thesis by blast
    qed
    with ih show ?thesis by simp
  qed
qed

lemma find_next_start_code_finds:
  "s \<le> k \<Longrightarrow> k + 4 < length data \<Longrightarrow> start_code_at data k \<Longrightarrow>
     \<exists>n. find_next_start_code data s = Some n \<and> n \<le> k"
proof (induction data s rule: find_next_start_code.induct)
  case (1 data i)
  from "1.prems" have g: "i + 4 < length data" by simp
  show ?case
  proof (cases "start_code_at data i")
    case True
    with g have "find_next_start_code data i = Some i"
      by (subst find_next_start_code.simps) simp
    with "1.prems" show ?thesis by simp
  next
    case False
    with "1.prems" have "i \<noteq> k" by auto
    with "1.prems" have "i + 1 \<le> k" by simp
    from "1.IH" [OF g False this "1.prems"(2,3)]
    obtain n where "find_next_start_code data (i + 1) = Some n" "n \<le> k" by blast
    with g False show ?thesis
      by (subst find_next_start_code.simps) simp
  qed
qed

lemma start_codes_apart:
  assumes "start_code_at data i" and "start_code_at data k" and "i < k"
  shows "i + 4 \<le> k"
proof (rule ccontr)
  assume "\<not> i + 4 \<le> k"
  with assms(3) consider "k = i + 1" | "k = i + 2" | "k = i + 3" by linarith
  then show False
  proof cases
    case 1
    with assms(1,2) show ?thesis
      by (simp add: start_code_at_def numeral_3_eq_3 numeral_2_eq_2)
  next
    case 2
    with assms(1,2) show ?thesis
      by (simp add: start_code_at_def numeral_3_eq_3 numeral_2_eq_2)
  next
    case 3
    with assms(1,2) show ?thesis
      by (simp add: start_code_at_def numeral_3_eq_3 numeral_2_eq_2)
  qed
qed

lemma read_chunked_direct:
  assumes "p < length data" and "data ! p \<noteq> 0xFF"
  shows "read_chunked data p = Some (unat (data ! p), p + 1)"
proof -
  have "read_ff data p 0 = (0, p)"
    using assms by (subst read_ff.simps) simp
  with assms(1) show ?thesis by (simp add: read_chunked_def)
qed

lemma read_ff_result:
  "read_ff data p acc = (a, q) \<Longrightarrow>
     (q = p \<and> a = acc \<or> acc + 255 \<le> a) \<and> (q < length data \<longrightarrow> data ! q \<noteq> 0xFF)"
proof (induction data p acc rule: read_ff.induct)
  case (1 data pos acc)
  show ?case
  proof (cases "pos < length data \<and> data ! pos = 0xFF")
    case True
    with "1.prems" have "read_ff data (pos + 1) (acc + 255) = (a, q)"
      by (subst (asm) read_ff.simps) simp
    from "1.IH" [OF True this] show ?thesis by auto
  next
    case False
    with "1.prems" have "a = acc" "q = pos"
      by (subst (asm) read_ff.simps, simp)+
    with False show ?thesis by auto
  qed
qed

lemma read_chunked_small:
  assumes "read_chunked data p = Some (v, p')" and "v < 255"
  shows "p < length data \<and> data ! p \<noteq> 0xFF \<and> unat (data ! p) = v \<and> p' = p + 1"
proof -
  obtain a q where r: "read_ff data p 0 = (a, q)" by (cases "read_ff data p 0")
  with assms(1) have q: "q < length data" "v = a + unat (data ! q)" "p' = q + 1"
    by (auto simp add: read_chunked_def split: if_splits)
  from read_ff_result [OF r] q assms(2) have "q = p" "a = 0" "data ! q \<noteq> 0xFF"
    by auto
  with q show ?thesis by simp
qed

section \<open>Which units the parser accepts\<close>

lemma byte_of_unat: "unat (b :: byte) = n \<Longrightarrow> b = of_nat n"
  by auto

lemma parse_valid:
  assumes "j + 88 \<le> length data" and "data ! (j + 5) = 5" and "data ! (j + 6) = 81"
    and "take 17 (drop (j + 7) data) = uuid"
  shows "parse_sei_and_get_length data j = (Some (take 64 (drop (j + 24) data)), 89)"
proof -
  have pos: "j + 4 < length data" using assms(1) by simp
  have "read_chunked data (j + 5) = Some (unat (data ! (j + 5)), j + 5 + 1)"
    by (rule read_chunked_direct) (use assms(1,2) in simp_all)
  then have "read_chunked data (j + 5) = Some (5, j + 6)"
    using assms(2) by simp
  moreover have "j + 4 + 1 = j + 5" by simp
  ultimately have r1: "read_chunked data (j + 4 + 1) = Some (5, j + 6)"
    by (simp only:)
  have "read_chunked data (j + 6) = Some (unat (data ! (j + 6)), j + 6 + 1)"
    by (rule read_chunked_direct) (use assms(1,3) in simp_all)
  then have r2: "read_chunked data (j + 6) = Some (81, j + 7)"
    using assms(3) by simp
  have t: "take 17 (take 81 (drop (j + 7) data)) = uuid"
    using assms(4) by simp
  have l: "length (drop 17 (take 81 (drop (j + 7) data))) = 64"
    using assms(1) by simp
  have s: "drop 17 (take 81 (drop (j + 7) data)) = take 64 (drop (j + 24) data)"
    by (simp add: drop_take add.commute)
  have f: "j + 7 + 81 \<le> length data" using assms(1) by simp
  show ?thesis
    unfolding parse_sei_steps [OF pos r1 r2]
    using t l f by (simp add: s count_field_bytes_small)
qed

lemma parse_Some:
  assumes "parse_sei_and_get_length data j = (Some sig, n)"
  shows "j + 88 \<le> length data \<and> data ! (j + 5) = 5 \<and> data ! (j + 6) = 81
         \<and> take 17 (drop (j + 7) data) = uuid"
proof -
  from assms have pos: "j + 4 < length data"
    by (auto simp add: parse_sei_and_get_length_def Let_def split: if_splits)
  from assms pos obtain t p1 where r1: "read_chunked data (j + 4 + 1) = Some (t, p1)"
    by (auto simp add: parse_sei_and_get_length_def Let_def split: if_splits option.splits)
  from assms pos r1 obtain sz p2 where r2: "read_chunked data p1 = Some (sz, p2)"
    by (auto simp add: parse_sei_and_get_length_def Let_def split: if_splits option.splits)
  from assms have c: "t = 5" "p2 + sz \<le> length data"
    "take 17 (take sz (drop p2 data)) = uuid"
    "length (drop 17 (take sz (drop p2 data))) = 64"
    unfolding parse_sei_steps [OF pos r1 r2] by (simp_all split: if_splits)
  have e5: "j + 4 + 1 = j + 5" by simp
  from read_chunked_small [OF r1 [unfolded e5]] c(1)
  have h1: "unat (data ! (j + 5)) = 5" "p1 = j + 6" by simp_all
  from c(2,4) have sz: "sz = 81" by simp
  from read_chunked_small [OF r2 [unfolded h1(2)]] sz
  have h2: "unat (data ! (j + 6)) = 81" "p2 = j + 7" by simp_all
  from byte_of_unat [OF h1(1)] have b5: "data ! (j + 5) = 5" by simp
  from byte_of_unat [OF h2(1)] have b6: "data ! (j + 6) = 81" by simp
  from c(3) sz h2(2) have "take 17 (drop (j + 7) data) = uuid" by simp
  with c(2) sz h2(2) b5 b6 show ?thesis by simp
qed

section \<open>The extraction loop\<close>

lemma try_sei_validates:
  assumes "validates data j"
  shows "try_sei data j = Some (take 64 (drop (j + 24) data), take j data @ drop (j + 89) data)"
proof -
  from assms have v: "data ! (j + 4) AND 0x1F = 6" "j + 88 \<le> length data"
    "data ! (j + 5) = 5" "data ! (j + 6) = 81" "take 17 (drop (j + 7) data) = uuid"
    by (simp_all add: validates_def unit_at_def)
  have "length (take 64 (drop (j + 24) data)) = 64"
    using v(2) by simp
  then have "take 64 (drop (j + 24) data) \<noteq> []"
    by (metis length_0_conv zero_neq_numeral)
  then show ?thesis
    by (simp add: try_sei_def Let_def v(1) parse_valid [OF v(2-5)])
qed

lemma try_sei_Some:
  assumes "try_sei data j = Some r" and "j + 4 < length data" and "start_code_at data j"
  shows "validates data j"
proof -
  from assms(1) have t: "data ! (j + 4) AND 0x1F = 6"
    by (auto simp add: try_sei_def Let_def split: if_splits)
  with assms(1) obtain sig n where "parse_sei_and_get_length data j = (Some sig, n)"
    by (cases "parse_sei_and_get_length data j")
       (auto simp add: try_sei_def Let_def split: option.splits)
  from parse_Some [OF this] t assms(2,3) show ?thesis
    by (simp add: validates_def unit_at_def)
qed

lemma validates_start_code: "validates data j \<Longrightarrow> start_code_at data j \<and> j + 88 \<le> length data"
  by (simp add: validates_def unit_at_def)

lemma extract_loop_finds:
  "validates data j \<Longrightarrow> i \<le> j \<Longrightarrow> (\<forall>k. i \<le> k \<and> k < j \<longrightarrow> \<not> validates data k) \<Longrightarrow>
     extract_loop data i = try_sei data j"
proof (induction data i rule: extract_loop.induct)
  case (1 data i)
  from validates_start_code [OF "1.prems"(1)]
  have scj: "start_code_at data j" and lj: "j + 88 \<le> length data" by simp_all
  from lj "1.prems"(2) have g: "i + 20 < length data" by simp
  show ?case
  proof (cases "start_code_at data i")
    case sc: True
    show ?thesis
    proof (cases "i = j")
      case True
      with g sc try_sei_validates [OF "1.prems"(1)] show ?thesis
        by (subst extract_loop.simps) simp
    next
      case False
      with "1.prems"(2) have lt: "i < j" by simp
      with "1.prems"(3) have "\<not> validates data i" by simp
      with try_sei_Some [of data i] g sc have none: "try_sei data i = None"
        by (cases "try_sei data i") auto
      from start_codes_apart [OF sc scj lt] have "i + 4 \<le> j" .
      from find_next_start_code_finds [OF this _ scj] lj
      obtain n where n: "find_next_start_code data (i + 4) = Some n" "n \<le> j" by auto
      from find_next_start_code_Some [OF n(1)] have "i + 4 \<le> n" by simp
      with "1.prems"(3) have "\<forall>k. n \<le> k \<and> k < j \<longrightarrow> \<not> validates data k" by simp
      from "1.IH"(1) [OF g sc none n(1) "1.prems"(1) n(2) this]
      have "extract_loop data n = try_sei data j" .
      with g sc none n(1) show ?thesis
        by (subst extract_loop.simps) simp
    qed
  next
    case nsc: False
    with scj have "i \<noteq> j" by auto
    with "1.prems"(2) have le: "i + 1 \<le> j" by simp
    with "1.prems"(3) have "\<forall>k. i + 1 \<le> k \<and> k < j \<longrightarrow> \<not> validates data k" by simp
    from "1.IH"(2) [OF g nsc "1.prems"(1) le this]
    have "extract_loop data (i + 1) = try_sei data j" .
    with g nsc show ?thesis
      by (subst extract_loop.simps) simp
  qed
qed

lemma extract_loop_none:
  "(\<forall>k. i \<le> k \<longrightarrow> \<not> validates data k) \<Longrightarrow> extract_loop data i = None"
proof (induction data i rule: extract_loop.induct)
  case (1 data i)
  show ?case
  proof (cases "i + 20 < length data")
    case g: True
    show ?thesis
    proof (cases "start_code_at data i")
      case sc: True
      from "1.prems" have "\<not> validates data i" by simp
      with try_sei_Some [of data i] g sc have none: "try_sei data i = None"
        by (cases "try_sei data i") auto
      show ?thesis
      proof (cases "find_next_start_code data (i + 4)")
        case None
        with g sc none show ?thesis
          by (subst extract_loop.simps) simp
      next
        case (Some n)
        from find_next_start_code_Some [OF Some] have "i + 4 \<le> n" by simp
        with "1.prems" have "\<forall>k. n \<le> k \<longrightarrow> \<not> validates data k" by simp
        from "1.IH"(1) [OF g sc none Some this] g sc none Some show ?thesis
          by (subst extract_loop.simps) simp
      qed
    next
      case nsc: False
      from "1.prems" have "\<forall>k. i + 1 \<le> k \<longrightarrow> \<not> validates data k" by simp
      from "1.IH"(2) [OF g nsc this] g nsc show ?thesis
        by (subst extract_loop.simps) simp
    qed
  next
    case False
    then show ?thesis
      by (subst extract_loop.simps) simp
  qed
qed

lemma extract_first_valid:
  assumes "first_valid_unit data j"
  shows "extract_signature_and_remove_watermark data
           = Some (take 64 (drop (j + 24) data), take j data @ drop (j + 89) data)"
proof -
  from assms have v: "validates data j" and f: "\<forall>k. 0 \<le> k \<and> k < j \<longrightarrow> \<not> validates data k"
    by (simp_all add: first_valid_unit_def)
  from extract_loop_finds [OF v _ f] try_sei_validates [OF v] show ?thesis
    by (simp add: extract_signature_and_remove_watermark_def)
qed

lemma extract_none_iff:
  "extract_signature_and_remove_watermark data = None \<longleftrightarrow> (\<forall>j. \<not> validates data j)"
proof
  assume n: "extract_signature_and_remove_watermark data = None"
  show "\<forall>j. \<not> validates data j"
  proof (rule ccontr)
    assume "\<not> (\<forall>j. \<not> validates data j)"
    then obtain j where "validates data j" by blast
    then have l: "validates data (LEAST j. validates data j)"
      by (rule LeastI)
    have "\<not> validates data k" if "k < (LEAST j. validates data j)" for k
      using that by (rule not_less_Least)
    with l have "first_valid_unit data (LEAST j. validates data j)"
      unfolding first_valid_unit_def by blast
    from extract_first_valid [OF this] n show False by simp
  qed
next
  assume "\<forall>j. \<not> validates data j"
  then show "extract_signature_and_remove_watermark data = None"
    by (simp add: extract_signature_and_remove_watermark_def extract_loop_none)
qed

text \<open>
  Claim C8. A unit of type 6 that fails validation (message type, declared size 81, tag)
  is never returned as a match: whatever extraction returns is the signature and the
  removal of the first unit of the buffer that validates, units before it that do not
  validate being passed over; and extraction finds nothing if and only if no unit of the
  whole buffer validates.
\<close>

theorem extraction_takes_first_valid_unit:
  "(extract_signature_and_remove_watermark data = None \<longleftrightarrow> (\<forall>j. \<not> validates data j))
   \<and> (first_valid_unit data j \<longrightarrow>
        extract_signature_and_remove_watermark data
          = Some (take 64 (drop (j + 24) data), take j data @ drop (j + 89) data))
   \<and> (extract_signature_and_remove_watermark data = Some (sig, restored) \<longrightarrow>
        (\<exists>k. first_valid_unit data k \<and> sig = take 64 (drop (k + 24) data)
              \<and> restored = take k data @ drop (k + 89) data))"
proof (intro conjI impI)
  show "extract_signature_and_remove_watermark data = None \<longleftrightarrow> (\<forall>j. \<not> validates data j)"
    by (rule extract_none_iff)
next
  assume "first_valid_unit data j"
  then show "extract_signature_and_remove_watermark data
      = Some (take 64 (drop (j + 24) data), take j data @ drop (j + 89) data)"
    by (rule extract_first_valid)
next
  assume s: "extract_signature_and_remove_watermark data = Some (sig, restored)"
  then have "\<not> (\<forall>j. \<not> validates data j)"
    using extract_none_iff [of data] by simp
  then obtain j where "validates data j" by blast
  then have l: "validates data (LEAST j. validates data j)"
    by (rule LeastI)
  have "\<not> validates data k" if "k < (LEAST j. validates data j)" for k
    using that by (rule not_less_Least)
  with l have f: "first_valid_unit data (LEAST j. validates data j)"
    unfolding first_valid_unit_def by blast
  from extract_first_valid [OF f] s f
  show "\<exists>k. first_valid_unit data k \<and> sig = take 64 (drop (k + 24) data)
              \<and> restored = take k data @ drop (k + 89) data"
    by auto
qed

theorem extraction_takes_first_valid_unit_witness:
  "extract_signature_and_remove_watermark
     ([0, 0, 0, 1, 6, 4, 2, 7, 7, 0x80] @ create_sei_payload (replicate 64 0xAB)
        @ [0, 0, 0, 1, 0x65, 1, 2, 3])
   = Some (replicate 64 0xAB, [0, 0, 0, 1, 6, 4, 2, 7, 7, 0x80, 0, 0, 0, 1, 0x65, 1, 2, 3])"
proof -
  define data :: "byte list" where
    "data = [0, 0, 0, 1, 6, 4, 2, 7, 7, 0x80] @ create_sei_payload (replicate 64 0xAB)
        @ [0, 0, 0, 1, 0x65, 1, 2, 3]"
  have f: "first_valid_unit data 10"
    unfolding data_def by code_simp
  have s: "take 64 (drop (10 + 24) data) = replicate 64 0xAB"
    unfolding data_def by code_simp
  have r: "take 10 data @ drop (10 + 89) data
             = [0, 0, 0, 1, 6, 4, 2, 7, 7, 0x80, 0, 0, 0, 1, 0x65, 1, 2, 3]"
    unfolding data_def by code_simp
  from extraction_takes_first_valid_unit [of data 10] f
  have "extract_signature_and_remove_watermark data
          = Some (take 64 (drop (10 + 24) data), take 10 data @ drop (10 + 89) data)"
    by blast
  then show ?thesis
    unfolding s r unfolding data_def .
qed

text \<open>
  Claim C10. The decoder never reads the trailing marker byte. A unit with any header of
  type 6, message type 5, declared size 81, the tag and a 64-byte signature is accepted
  whatever follows its payload (\<open>rest\<close> may start with a byte other than \<open>0x80\<close>, or be
  empty, so that the trailing byte lies beyond the end of the buffer); the length
  returned is 89, one more than the 88 bytes up to the end of the payload, and the
  removal deletes one byte behind the payload when there is one.
\<close>

theorem trailing_byte_is_not_checked:
  assumes "length S = 64" and "h AND 0x1F = 6"
  shows "parse_sei_and_get_length (pre @ [0, 0, 0, 1, h, 5, 81] @ uuid @ S @ rest) (length pre)
           = (Some S, 89)
         \<and> length ([0, 0, 0, 1, h, 5, 81] @ uuid @ S) = 88
         \<and> try_sei (pre @ [0, 0, 0, 1, h, 5, 81] @ uuid @ S @ rest) (length pre)
             = Some (S, pre @ drop 1 rest)
         \<and> extract_signature_and_remove_watermark ([0, 0, 0, 1, h, 5, 81] @ uuid @ S @ rest)
             = Some (S, drop 1 rest)"
proof -
  have p: "parse_sei_and_get_length (pre @ [0, 0, 0, 1, h, 5, 81] @ uuid @ S @ rest) (length pre)
           = (Some S, 89)"
    using parse_tagged_unit [of pre h S rest] assms(1) by (simp add: encode_81)
  have l: "length ([0, 0, 0, 1, h, 5, 81] @ uuid @ S) = 88"
    using assms(1) by (simp add: length_uuid)
  define data where "data = [0, 0, 0, 1, h, 5, 81] @ uuid @ S @ rest"
  have t: "try_sei data 0 = Some (S, drop 1 rest)"
    using try_sei_tagged_unit [OF assms, of "[]" rest] by (simp add: data_def)
  have g: "0 + 20 < length data"
    using assms(1) by (simp add: data_def length_uuid)
  have sc: "start_code_at data 0"
    by (simp add: data_def start_code_at_def)
  have "extract_loop data 0 = Some (S, drop 1 rest)"
    using g sc t by (subst extract_loop.simps) simp
  then have e: "extract_signature_and_remove_watermark data = Some (S, drop 1 rest)"
    by (simp add: extract_signature_and_remove_watermark_def)
  from p l try_sei_tagged_unit [OF assms, of pre rest] e show ?thesis
    unfolding data_def by blast
qed

theorem trailing_byte_is_not_checked_witness:
  "extract_signature_and_remove_watermark
     ([0, 0, 0, 1, 6, 5, 81] @ uuid @ replicate 64 0xAB @ [0x7F, 9])
     = Some (replicate 64 0xAB, [9])
   \<and> extract_signature_and_remove_watermark
     ([0, 0, 0, 1, 6, 5, 81] @ uuid @ replicate 64 0xAB @ [])
     = Some (replicate 64 0xAB, [])"
  using trailing_byte_is_not_checked [of "replicate 64 0xAB" 6 "[]" "[0x7F, 9]"]
    trailing_byte_is_not_checked [of "replicate 64 0xAB" 6 "[]" "[]"]
  by simp

section \<open>The round trip\<close>

lemma uuid_nonzero: "b \<in> set uuid \<Longrightarrow> b \<noteq> 0"
  by (auto simp add: uuid_def)

lemma validates_nonzero:
  assumes "validates data k" and "3 \<le> m" and "m \<le> 23"
  shows "data ! (k + m) \<noteq> 0"
proof -
  from assms(1) have v: "start_code_at data k" "data ! (k + 4) AND 0x1F = 6"
    "k + 88 \<le> length data" "data ! (k + 5) = 5" "data ! (k + 6) = 81"
    "take 17 (drop (k + 7) data) = uuid"
    by (simp_all add: validates_def unit_at_def)
  consider "m = 3" | "m = 4" | "m = 5" | "m = 6" | "7 \<le> m"
    using assms(2) by linarith
  then show ?thesis
  proof cases
    case 1
    with v(1) show ?thesis by (simp add: start_code_at_def)
  next
    case 2
    have "data ! (k + 4) \<noteq> 0"
    proof
      assume "data ! (k + 4) = 0"
      with v(2) show False by simp
    qed
    with 2 show ?thesis by simp
  next
    case 3
    with v(4) show ?thesis by simp
  next
    case 4
    with v(5) show ?thesis by simp
  next
    case 5
    define q where "q = m - 7"
    from 5 assms(3) have q: "q < 17" "m = 7 + q" by (simp_all add: q_def)
    have "take 17 (drop (k + 7) data) ! q = data ! (k + 7 + q)"
      using q(1) v(3) by simp
    with v(6) have "data ! (k + 7 + q) = uuid ! q" by simp
    moreover have "uuid ! q \<in> set uuid"
      using q(1) by (simp add: length_uuid)
    ultimately have "data ! (k + 7 + q) \<noteq> 0"
      using uuid_nonzero by simp
    then show ?thesis
      by (simp add: q(2) add.assoc)
  qed
qed

lemma valid_unit_ends_before_zeros:
  assumes "validates data k" and "k < j"
    and "data ! j = 0" and "data ! (j + 1) = 0" and "data ! (j + 2) = 0"
  shows "k + 24 \<le> j"
proof (rule ccontr)
  assume "\<not> k + 24 \<le> j"
  with assms(2) have d: "j - k \<le> 23" "1 \<le> j - k" by simp_all
  consider "j - k = 1" | "j - k = 2" | "3 \<le> j - k" using d(2) by linarith
  then show False
  proof cases
    case 1
    then have "k + 3 = j + 2" using assms(2) by simp
    with validates_nonzero [OF assms(1), of 3] assms(5) show False by simp
  next
    case 2
    then have "k + 3 = j + 1" using assms(2) by simp
    with validates_nonzero [OF assms(1), of 3] assms(4) show False by simp
  next
    case 3
    have "k + (j - k) = j" using assms(2) by simp
    with validates_nonzero [OF assms(1) 3 d(1)] assms(3) show False by simp
  qed
qed

lemma created_unit_start:
  "(pre @ create_sei_payload S @ post) ! length pre = 0
   \<and> (pre @ create_sei_payload S @ post) ! (length pre + 1) = 0
   \<and> (pre @ create_sei_payload S @ post) ! (length pre + 2) = 0
   \<and> start_code_at (pre @ create_sei_payload S @ post) (length pre)"
  by (simp add: create_sei_payload_eq nth_append start_code_at_def)

lemma take_tag_prefix:
  assumes "p + 17 \<le> length pre"
  shows "take 17 (drop p (pre @ ys)) = take 17 (drop p pre)"
  using assms by simp

lemma take_tag_take:
  assumes "p + 17 \<le> n"
  shows "take 17 (drop p (take n B)) = take 17 (drop p B)"
  using assms by (simp add: drop_take min_def)

lemma round_trip_at:
  assumes "length S = 64"
    and "\<forall>p. p + 17 \<le> length pre \<longrightarrow> take 17 (drop p pre) \<noteq> uuid"
  shows "extract_signature_and_remove_watermark (pre @ create_sei_payload S @ post)
           = Some (S, pre @ post)"
proof -
  define data where "data = pre @ create_sei_payload S @ post"
  have d: "data = pre @ [0, 0, 0, 1, 6, 5, 81] @ uuid @ S @ (0x80 # post)"
    using assms(1) by (simp add: data_def create_sei_payload_64)
  have t: "try_sei data (length pre) = Some (S, pre @ post)"
    unfolding d using try_sei_tagged_unit [OF assms(1), of 6 pre "0x80 # post"] by simp
  have z: "data ! length pre = 0" "data ! (length pre + 1) = 0" "data ! (length pre + 2) = 0"
    "start_code_at data (length pre)"
    unfolding data_def using created_unit_start [of pre S post] by simp_all
  have l: "length pre + 4 < length data"
    by (simp add: data_def create_sei_payload_length)
  from try_sei_Some [OF t l z(4)] have v: "validates data (length pre)" .
  have n: "\<not> validates data k" if "k < length pre" for k
  proof
    assume vk: "validates data k"
    from valid_unit_ends_before_zeros [OF vk that z(1-3)] have le: "k + 24 \<le> length pre" .
    then have "take 17 (drop (k + 7) data) = take 17 (drop (k + 7) pre)"
      unfolding data_def by (intro take_tag_prefix) simp
    moreover from vk have "take 17 (drop (k + 7) data) = uuid"
      by (simp add: validates_def)
    moreover from le assms(2) have "take 17 (drop (k + 7) pre) \<noteq> uuid" by simp
    ultimately show False by simp
  qed
  then have "\<forall>k. 0 \<le> k \<and> k < length pre \<longrightarrow> \<not> validates data k" by simp
  from extract_loop_finds [OF v _ this] t show ?thesis
    by (simp add: extract_signature_and_remove_watermark_def data_def)
qed

text \<open>
  Claim C1, as stated, fails. The buffer below starts with the first 24 bytes of a
  watermark unit (start code, header, message type, size 81, tag) followed by a second
  start code. The selector puts the new unit at offset 24, behind the type-6 unit; the
  extractor then accepts the old prefix at offset 0, reads the first 64 bytes of the new
  unit as the signature and deletes 89 bytes from offset 0: neither the signature nor
  the buffer comes back.
\<close>

theorem round_trip_counterexample:
  "extract_signature_and_remove_watermark
     (embed_in_sei_messages ([0, 0, 0, 1, 6, 5, 81] @ uuid @ [0, 0, 0, 1, 0]) (replicate 64 0))
   = Some ([0, 0, 0, 1, 6, 5, 81] @ uuid @ replicate 40 0,
           replicate 23 0 @ [0x80, 0, 0, 0, 1, 0])
   \<and> extract_signature_and_remove_watermark
     (embed_in_sei_messages ([0, 0, 0, 1, 6, 5, 81] @ uuid @ [0, 0, 0, 1, 0]) (replicate 64 0))
   \<noteq> Some (replicate 64 0, [0, 0, 0, 1, 6, 5, 81] @ uuid @ [0, 0, 0, 1, 0])"
  by code_simp

text \<open>
  Claim C1, amended. For every buffer \<open>B\<close> in which the 17-byte tag does not occur
  before the selected insertion offset, and every 64-byte signature \<open>S\<close>, extraction
  from the embedded result returns the pair of \<open>S\<close> and \<open>B\<close>, byte for byte.
\<close>

theorem embed_extract_round_trip:
  assumes "length S = 64" and "tag_free_before B (find_best_insertion_point B)"
  shows "extract_signature_and_remove_watermark (embed_in_sei_messages B S) = Some (S, B)"
proof -
  define n where "n = find_best_insertion_point B"
  have "take 17 (drop p (take n B)) \<noteq> uuid" if "p + 17 \<le> length (take n B)" for p
  proof -
    from that have le: "p + 17 \<le> n" by simp
    with assms(2) have "take 17 (drop p B) \<noteq> uuid"
      by (simp add: tag_free_before_def n_def)
    then show ?thesis
      unfolding take_tag_take [OF le, of B] .
  qed
  then have "\<forall>p. p + 17 \<le> length (take n B) \<longrightarrow> take 17 (drop p (take n B)) \<noteq> uuid"
    by blast
  from round_trip_at [OF assms(1) this, of "drop n B"] show ?thesis
    by (simp add: embed_in_sei_messages_eq n_def)
qed

theorem embed_extract_round_trip_witness:
  "extract_signature_and_remove_watermark
     (embed_in_sei_messages
        [0, 0, 0, 1, 0x67, 0, 0, 0, 1, 0x68, 0, 0, 0, 1, 0x41, 9, 9, 9, 9, 9, 9, 9, 9, 9]
        (replicate 64 0xAB))
   = Some (replicate 64 0xAB,
        [0, 0, 0, 1, 0x67, 0, 0, 0, 1, 0x68, 0, 0, 0, 1, 0x41, 9, 9, 9, 9, 9, 9, 9, 9, 9])"
proof -
  have ip: "find_best_insertion_point
      [0, 0, 0, 1, 0x67, 0, 0, 0, 1, 0x68, 0, 0, 0, 1, 0x41, 9, 9, 9, 9, 9, 9, 9, 9, 9] = 10"
    by code_simp
  have "tag_free_before
      [0, 0, 0, 1, 0x67, 0, 0, 0, 1, 0x68, 0, 0, 0, 1, 0x41, 9, 9, 9, 9, 9, 9, 9, 9, 9]
      (find_best_insertion_point
        [0, 0, 0, 1, 0x67, 0, 0, 0, 1, 0x68, 0, 0, 0, 1, 0x41, 9, 9, 9, 9, 9, 9, 9, 9, 9])"
    unfolding ip by (simp add: tag_free_before_def)
  with embed_extract_round_trip [of "replicate 64 0xAB"] show ?thesis
    by simp
qed

section \<open>Self-contained verification returns the verification result\<close>

text \<open>
  Claim C9. The value returned by \<open>verify_watermarked_video_self_contained\<close> is the
  result of verifying the extracted signature against the restored video, and \<open>False\<close>
  when extraction fails; the expected size (watermarked size minus signature length
  minus 16 minus 11) is only printed. In the second part a three-byte video with an
  embedded 64-byte signature is checked with a signer that accepts: the expected size
  printed is 1, the actual size is 3, and the value returned is \<open>True\<close>.
\<close>

theorem self_check_returns_verification_result:
  "fst (verify_watermarked_video_self_contained gost_verify streebog self watermarked_video)
     = (case extract_signature_and_restore_video watermarked_video of
          None \<Rightarrow> Inr False
        | Some (signature, restored_video) \<Rightarrow>
            verify_video gost_verify streebog self restored_video signature)
   \<and> verify_watermarked_video_self_contained (\<lambda>pk digest signature. Some True) (\<lambda>video. [])
        \<lparr>private_key = None, public_key = Some [], sign_obj = True\<rparr>
        (Some (embed_in_sei_messages [1, 2, 3] (replicate 64 0xAB)))
       = (Inr True, [1, 3])"
proof
  show "fst (verify_watermarked_video_self_contained gost_verify streebog self watermarked_video)
     = (case extract_signature_and_restore_video watermarked_video of
          None \<Rightarrow> Inr False
        | Some (signature, restored_video) \<Rightarrow>
            verify_video gost_verify streebog self restored_video signature)"
    by (simp add: verify_watermarked_video_self_contained_def Let_def
        split: option.splits sum.splits prod.splits)
next
  show "verify_watermarked_video_self_contained (\<lambda>pk digest signature. Some True) (\<lambda>video. [])
        \<lparr>private_key = None, public_key = Some [], sign_obj = True\<rparr>
        (Some (embed_in_sei_messages [1, 2, 3] (replicate 64 0xAB)))
       = (Inr True, [1, 3])"
    by code_simp
qed

section \<open>The selector and the first coded slice\<close>

lemma find_best_loop_skip:
  "i + 8 < length B \<Longrightarrow> \<not> start_code_at B i \<Longrightarrow>
     find_best_loop B i sps pps = find_best_loop B (i + 1) sps pps"
  by (subst find_best_loop.simps) simp

lemma find_best_loop_return:
  "i + 8 < length B \<Longrightarrow> start_code_at B i \<Longrightarrow> classify_unit B i sps pps = (Some r, s', p') \<Longrightarrow>
     find_best_loop B i sps pps = Return r"
  by (subst find_best_loop.simps) simp

lemma find_best_loop_next:
  "i + 8 < length B \<Longrightarrow> start_code_at B i \<Longrightarrow> classify_unit B i sps pps = (None, s', p') \<Longrightarrow>
     find_next_start_code B (i + 4) = Some n \<Longrightarrow>
     find_best_loop B i sps pps = find_best_loop B n s' p'"
  by (subst find_best_loop.simps) simp

lemma unit_at_unique: "unit_at B i t \<Longrightarrow> unit_at B i t' \<Longrightarrow> t = t'"
  by (simp add: unit_at_def)

lemma unit_at_start: "unit_at B i t \<Longrightarrow> start_code_at B i \<and> i + 4 < length B"
  by (simp add: unit_at_def)

lemma unit_at_type:
  "i + 4 < length B \<Longrightarrow> start_code_at B i \<Longrightarrow> unit_at B i (B ! (i + 4) AND 0x1F)"
  by (simp add: unit_at_def)

text \<open>Between a start code and the next one that the scanner finds there is no unit.\<close>

lemma no_unit_between:
  assumes "start_code_at B i" and "find_next_start_code B (i + 4) = Some n"
    and "i < s" and "s < n"
  shows "\<not> unit_at B s t"
proof
  assume "unit_at B s t"
  then have sc: "start_code_at B s" by (simp add: unit_at_def)
  from start_codes_apart [OF assms(1) sc assms(3)] have "i + 4 \<le> s" .
  with find_next_start_code_Some [OF assms(2)] assms(4) sc show False by blast
qed

lemma seen_after_step:
  assumes "start_code_at B i" and "i + 4 < length B"
    and "find_next_start_code B (i + 4) = Some n"
  shows "(\<exists>s<n. unit_at B s t) \<longleftrightarrow> (\<exists>s<i. unit_at B s t) \<or> B ! (i + 4) AND 0x1F = t"
proof
  assume "\<exists>s<n. unit_at B s t"
  then obtain s where s: "s < n" "unit_at B s t" by blast
  consider "s < i" | "s = i" | "i < s" by linarith
  then show "(\<exists>s<i. unit_at B s t) \<or> B ! (i + 4) AND 0x1F = t"
  proof cases
    case 1
    with s(2) show ?thesis by blast
  next
    case 2
    with s(2) show ?thesis by (simp add: unit_at_def)
  next
    case 3
    from no_unit_between [OF assms(1,3) 3 s(1)] s(2) show ?thesis by blast
  qed
next
  from find_next_start_code_Some [OF assms(3)] have lt: "i < n" by simp
  assume "(\<exists>s<i. unit_at B s t) \<or> B ! (i + 4) AND 0x1F = t"
  then show "\<exists>s<n. unit_at B s t"
  proof
    assume "\<exists>s<i. unit_at B s t"
    then obtain s where "s < i" "unit_at B s t" by blast
    with lt show ?thesis by (intro exI [of _ s]) simp
  next
    assume "B ! (i + 4) AND 0x1F = t"
    with assms(1,2) have "unit_at B i t" by (simp add: unit_at_def)
    with lt show ?thesis by blast
  qed
qed

lemma seen_after_skip:
  assumes "\<not> start_code_at B i"
  shows "(\<exists>s<i + 1. unit_at B s t) \<longleftrightarrow> (\<exists>s<i. unit_at B s t)"
proof
  assume "\<exists>s<i + 1. unit_at B s t"
  then obtain s where s: "s < i + 1" "unit_at B s t" by blast
  with assms have "s \<noteq> i" by (auto simp add: unit_at_def)
  with s show "\<exists>s<i. unit_at B s t" by (intro exI [of _ s]) simp
next
  assume "\<exists>s<i. unit_at B s t"
  then obtain s where "s < i" "unit_at B s t" by blast
  then show "\<exists>s<i + 1. unit_at B s t" by (intro exI [of _ s]) simp
qed

lemma find_best_loop_reaches_slice:
  assumes "first_qualifying_slice B k" and "k + 8 < length B" and "no_sei_before B k"
  shows "i \<le> k \<Longrightarrow> sps = (\<exists>s<i. unit_at B s 7) \<Longrightarrow> pps = (\<exists>p<i. unit_at B p 8) \<Longrightarrow>
           find_best_loop B i sps pps = Return k"
proof (induction "k - i" arbitrary: i sps pps rule: less_induct)
  case less
  from assms(1) have q: "qualifying_slice B k" and first: "\<And>k'. k' < k \<Longrightarrow> \<not> qualifying_slice B k'"
    by (simp_all add: first_qualifying_slice_def)
  from q have uk: "unit_at B k 1" and s7: "\<exists>s<k. unit_at B s 7" and s8: "\<exists>p<k. unit_at B p 8"
    by (simp_all add: qualifying_slice_def)
  from uk have sck: "start_code_at B k" by (simp add: unit_at_def)
  from less.prems(1) assms(2) have g: "i + 8 < length B" by simp
  then have g4: "i + 4 < length B" by simp
  show ?case
  proof (cases "start_code_at B i")
    case nsc: False
    with sck have "i \<noteq> k" by auto
    with less.prems(1) have lt: "i + 1 \<le> k" "k - (i + 1) < k - i" by simp_all
    from less.hyps [OF lt(2) lt(1)] less.prems(2,3) seen_after_skip [OF nsc]
    have "find_best_loop B (i + 1) sps pps = Return k" by simp
    with find_best_loop_skip [OF g nsc] show ?thesis by simp
  next
    case sc: True
    define t where "t = B ! (i + 4) AND 0x1F"
    have ut: "unit_at B i t" using unit_at_type [OF g4 sc] by (simp add: t_def)
    show ?thesis
    proof (cases "i = k")
      case True
      with ut uk have t1: "t = 1" using unit_at_unique by blast
      from True s7 s8 less.prems(2,3) have "sps" "pps" by simp_all
      with t1 have "classify_unit B i sps pps = (Some i, sps, pps)"
        by (simp add: classify_unit_def Let_def t_def [symmetric])
      from find_best_loop_return [OF g sc this] True show ?thesis by simp
    next
      case False
      with less.prems(1) have lt: "i < k" by simp
      from assms(3) lt ut have t6: "t \<noteq> 6"
        by (auto simp add: no_sei_before_def)
      have nq: "\<not> (t = 1 \<and> sps \<and> pps)"
      proof
        assume a: "t = 1 \<and> sps \<and> pps"
        with ut less.prems(2,3) have "qualifying_slice B i"
          by (simp add: qualifying_slice_def)
        with first [OF lt] show False by simp
      qed
      have c: "classify_unit B i sps pps = (None, sps \<or> t = 7, pps \<or> t = 8)"
        using t6 nq by (auto simp add: classify_unit_def Let_def t_def [symmetric])
      from start_codes_apart [OF sc sck lt] have "i + 4 \<le> k" .
      from find_next_start_code_finds [OF this _ sck] assms(2)
      obtain n where n: "find_next_start_code B (i + 4) = Some n" "n \<le> k" by auto
      from find_next_start_code_Some [OF n(1)] have "i < n" by simp
      with n(2) have m: "k - n < k - i" by simp
      have e7: "(sps \<or> t = 7) = (\<exists>s<n. unit_at B s 7)"
        using seen_after_step [OF sc g4 n(1), of 7] less.prems(2) by (simp add: t_def)
      have e8: "(pps \<or> t = 8) = (\<exists>p<n. unit_at B p 8)"
        using seen_after_step [OF sc g4 n(1), of 8] less.prems(3) by (simp add: t_def)
      from less.hyps [OF m n(2) e7 e8] find_best_loop_next [OF g sc c n(1)]
      show ?thesis by simp
    qed
  qed
qed

text \<open>
  Claim C6, as stated, fails. In the buffer below a unit of type 6 comes first, then the
  units of types 7 and 8, then a coded slice at offset 15, which is the first coded slice
  behind both parameter sets. The selector returns 5, the start code behind the type-6
  unit: its rules apply in the order in which the scan meets the units, and the rule for
  an existing type-6 unit fires before the slice is reached. In the second buffer (20
  bytes, no unit of type 6) the slice at offset 15 starts five bytes before the end; the
  loop of the selector stops eight bytes before the end and does not see it, and the
  offset returned is 10.
\<close>

theorem sei_before_slice_counterexample:
  "first_qualifying_slice
     [0, 0, 0, 1, 6, 0, 0, 0, 1, 7, 0, 0, 0, 1, 8, 0, 0, 0, 1, 1, 9, 9, 9, 9, 9, 9, 9, 9, 9] 15
   \<and> find_best_insertion_point
     [0, 0, 0, 1, 6, 0, 0, 0, 1, 7, 0, 0, 0, 1, 8, 0, 0, 0, 1, 1, 9, 9, 9, 9, 9, 9, 9, 9, 9] = 5
   \<and> first_qualifying_slice [0, 0, 0, 1, 7, 0, 0, 0, 1, 8, 0, 0, 0, 1, 5, 0, 0, 0, 1, 1] 15
   \<and> no_sei_before [0, 0, 0, 1, 7, 0, 0, 0, 1, 8, 0, 0, 0, 1, 5, 0, 0, 0, 1, 1] 15
   \<and> find_best_insertion_point [0, 0, 0, 1, 7, 0, 0, 0, 1, 8, 0, 0, 0, 1, 5, 0, 0, 0, 1, 1] = 10"
proof -
  have a: "first_qualifying_slice
     [0, 0, 0, 1, 6, 0, 0, 0, 1, 7, 0, 0, 0, 1, 8, 0, 0, 0, 1, 1, 9, 9, 9, 9, 9, 9, 9, 9, 9] 15
   \<and> find_best_insertion_point
     [0, 0, 0, 1, 6, 0, 0, 0, 1, 7, 0, 0, 0, 1, 8, 0, 0, 0, 1, 1, 9, 9, 9, 9, 9, 9, 9, 9, 9] = 5"
    by code_simp
  have b: "first_qualifying_slice [0, 0, 0, 1, 7, 0, 0, 0, 1, 8, 0, 0, 0, 1, 5, 0, 0, 0, 1, 1] 15"
    by code_simp
  have c: "no_sei_before [0, 0, 0, 1, 7, 0, 0, 0, 1, 8, 0, 0, 0, 1, 5, 0, 0, 0, 1, 1] 15"
    unfolding no_sei_before_def
    by (simp add: unit_at_def start_code_at_def All_less_Suc eval_nat_numeral)
  have d: "find_best_insertion_point
      [0, 0, 0, 1, 7, 0, 0, 0, 1, 8, 0, 0, 0, 1, 5, 0, 0, 0, 1, 1] = 10"
    by code_simp
  from a b c d show ?thesis by blast
qed

text \<open>
  Claim C6, amended. If the first coded slice (type 1) that starts behind a unit of type 7
  and a unit of type 8 starts more than eight bytes before the end of the buffer, and no
  unit of type 6 starts before it, then the selector returns the start offset of that
  slice.
\<close>

theorem first_slice_is_selected:
  assumes "first_qualifying_slice B k" and "k + 8 < length B" and "no_sei_before B k"
  shows "find_best_insertion_point B = k"
proof -
  have "find_best_loop B 0 False False = Return k"
    by (rule find_best_loop_reaches_slice [OF assms]) simp_all
  then show ?thesis by (simp add: find_best_insertion_point_def)
qed

theorem first_slice_is_selected_witness:
  "find_best_insertion_point
     [0, 0, 0, 1, 0x67, 0, 0, 0, 1, 0x68, 0, 0, 0, 1, 0x41, 9, 9, 9, 9, 9, 9, 9, 9, 9] = 10"
proof -
  have f: "first_qualifying_slice
     [0, 0, 0, 1, 0x67, 0, 0, 0, 1, 0x68, 0, 0, 0, 1, 0x41, 9, 9, 9, 9, 9, 9, 9, 9, 9] 10"
    by code_simp
  have n: "no_sei_before
     [0, 0, 0, 1, 0x67, 0, 0, 0, 1, 0x68, 0, 0, 0, 1, 0x41, 9, 9, 9, 9, 9, 9, 9, 9, 9] 10"
    unfolding no_sei_before_def
    by (simp add: unit_at_def start_code_at_def All_less_Suc eval_nat_numeral)
  show ?thesis
    by (rule first_slice_is_selected [OF f _ n]) simp
qed

section \<open>The selector behind the parameter sets\<close>

lemma find_position_loop_skip:
  "i + 8 < length B \<Longrightarrow> \<not> start_code_at B i \<Longrightarrow>
     find_position_loop B i lst = find_position_loop B (i + 1) lst"
  by (subst find_position_loop.simps) simp

lemma find_position_loop_other:
  "i + 8 < length B \<Longrightarrow> start_code_at B i \<Longrightarrow>
     B ! (i + 4) AND 0x1F \<noteq> 7 \<Longrightarrow> B ! (i + 4) AND 0x1F \<noteq> 8 \<Longrightarrow>
     find_position_loop B i lst = find_position_loop B (i + 4) lst"
  by (subst find_position_loop.simps) simp

lemma find_position_loop_param:
  "i + 8 < length B \<Longrightarrow> start_code_at B i \<Longrightarrow>
     B ! (i + 4) AND 0x1F = 7 \<or> B ! (i + 4) AND 0x1F = 8 \<Longrightarrow>
     find_position_loop B i lst =
       (case find_next_start_code B (i + 4) of
          Some n \<Rightarrow>
            if B ! (n + 4) AND 0x1F \<noteq> 7 \<and> B ! (n + 4) AND 0x1F \<noteq> 8 then n
            else find_position_loop B (i + 4) i
        | None \<Rightarrow> find_position_loop B (i + 4) i)"
  by (subst find_position_loop.simps) (simp add: Let_def split: option.splits)

lemma run_end_Some:
  assumes "run_end B j = Some n"
  shows "j + 8 < length B \<and> start_code_at B j
         \<and> (B ! (j + 4) AND 0x1F = 7 \<or> B ! (j + 4) AND 0x1F = 8)
         \<and> find_next_start_code B (j + 4) = Some n
         \<and> B ! (n + 4) AND 0x1F \<noteq> 7 \<and> B ! (n + 4) AND 0x1F \<noteq> 8"
proof -
  from assms have a: "j + 8 < length B" "unit_at B j 7 \<or> unit_at B j 8"
    by (simp_all add: run_end_def split: if_splits)
  with assms have f: "find_next_start_code B (j + 4) = Some n"
    and u: "\<not> (unit_at B n 7 \<or> unit_at B n 8)"
    by (auto simp add: run_end_def split: if_splits option.splits)
  from find_next_start_code_Some [OF f] have "n + 4 < length B" "start_code_at B n"
    by simp_all
  with u have "B ! (n + 4) AND 0x1F \<noteq> 7 \<and> B ! (n + 4) AND 0x1F \<noteq> 8"
    by (simp add: unit_at_def)
  with a f show ?thesis by (auto simp add: unit_at_def)
qed

lemma run_end_None:
  assumes "run_end B i = None" and "i + 8 < length B" and "start_code_at B i"
    and "B ! (i + 4) AND 0x1F = 7 \<or> B ! (i + 4) AND 0x1F = 8"
    and "find_next_start_code B (i + 4) = Some n"
  shows "\<not> (B ! (n + 4) AND 0x1F \<noteq> 7 \<and> B ! (n + 4) AND 0x1F \<noteq> 8)"
proof -
  from assms(2,3,4) have "unit_at B i 7 \<or> unit_at B i 8"
    by (auto simp add: unit_at_def)
  with assms(1,2,5) have "unit_at B n 7 \<or> unit_at B n 8"
    by (simp add: run_end_def split: if_splits)
  then show ?thesis by (auto simp add: unit_at_def)
qed

lemma find_position_loop_reaches_run_end:
  assumes "first_run_end B j n"
  shows "i \<le> j \<Longrightarrow> find_position_loop B i lst = n"
proof (induction "j - i" arbitrary: i lst rule: less_induct)
  case less
  from assms have r: "run_end B j = Some n" and first: "\<And>j'. j' < j \<Longrightarrow> run_end B j' = None"
    by (simp_all add: first_run_end_def)
  note rj = run_end_Some [OF r]
  from rj have scj: "start_code_at B j" and lj: "j + 8 < length B" by simp_all
  from less.prems lj have g: "i + 8 < length B" by simp
  show ?case
  proof (cases "start_code_at B i")
    case nsc: False
    with scj have "i \<noteq> j" by auto
    with less.prems have lt: "i + 1 \<le> j" "j - (i + 1) < j - i" by simp_all
    from less.hyps [OF lt(2) lt(1)] find_position_loop_skip [OF g nsc] show ?thesis by simp
  next
    case sc: True
    show ?thesis
    proof (cases "i = j")
      case True
      with rj find_position_loop_param [OF g sc, of lst] show ?thesis by simp
    next
      case False
      with less.prems have lt: "i < j" by simp
      from start_codes_apart [OF sc scj lt] have le: "i + 4 \<le> j" .
      with lt have m: "j - (i + 4) < j - i" by simp
      show ?thesis
      proof (cases "B ! (i + 4) AND 0x1F = 7 \<or> B ! (i + 4) AND 0x1F = 8")
        case p: True
        have "find_position_loop B i lst = find_position_loop B (i + 4) i"
        proof (cases "find_next_start_code B (i + 4)")
          case None
          with find_position_loop_param [OF g sc p, of lst] show ?thesis by simp
        next
          case (Some n')
          note nn = run_end_None [OF first [OF lt] g sc p Some]
          show ?thesis
            unfolding find_position_loop_param [OF g sc p, of lst]
            by (simp only: Some option.case nn if_False)
        qed
        with less.hyps [OF m le] show ?thesis by simp
      next
        case False
        then have "B ! (i + 4) AND 0x1F \<noteq> 7" "B ! (i + 4) AND 0x1F \<noteq> 8" by simp_all
        from find_position_loop_other [OF g sc this] less.hyps [OF m le] show ?thesis by simp
      qed
    qed
  qed
qed

text \<open>
  Claim C7, as stated, fails, in both of its parts. In the first buffer (18 bytes: a unit
  of type 7, a unit of type 8, padding) both parameter sets are seen and the loop runs
  out; the offset selected is 105, the start of the last parameter set plus 100, which
  is not an offset of the buffer. In the second buffer (units of types 7, 5, 8, 5) the
  offset selected is 5, behind the first parameter set, although another parameter set
  starts at offset 10: the point is behind the first run of parameter sets, not the last.
\<close>

theorem after_parameter_sets_counterexample:
  "find_best_loop [0, 0, 0, 1, 7, 0, 0, 0, 1, 8, 9, 9, 9, 9, 9, 9, 9, 9] 0 False False
     = Exhausted True True
   \<and> find_best_insertion_point [0, 0, 0, 1, 7, 0, 0, 0, 1, 8, 9, 9, 9, 9, 9, 9, 9, 9] = 105
   \<and> length [0, 0, 0, 1, 7, 0, 0, 0, 1, 8, 9, 9, 9, 9, 9, 9, 9, 9 :: byte] = 18
   \<and> find_best_loop
       [0, 0, 0, 1, 7, 0, 0, 0, 1, 5, 0, 0, 0, 1, 8, 0, 0, 0, 1, 5, 9, 9, 9, 9, 9, 9, 9, 9]
       0 False False = Exhausted True True
   \<and> find_best_insertion_point
       [0, 0, 0, 1, 7, 0, 0, 0, 1, 5, 0, 0, 0, 1, 8, 0, 0, 0, 1, 5, 9, 9, 9, 9, 9, 9, 9, 9] = 5
   \<and> unit_at
       [0, 0, 0, 1, 7, 0, 0, 0, 1, 5, 0, 0, 0, 1, 8, 0, 0, 0, 1, 5, 9, 9, 9, 9, 9, 9, 9, 9] 10 8"
  by code_simp

text \<open>
  Claim C7, amended. When both parameter-set types were seen and the loop of the selector
  ran out without returning, and some parameter-set unit (more than eight bytes before
  the end) is followed by a start code that opens a unit of another type, the offset
  selected is that start code behind the first such parameter-set unit, that is, the
  point behind the first run of parameter sets; it is the offset of a start code of the
  buffer, with a header byte behind it.
\<close>

theorem first_run_end_is_selected:
  assumes "find_best_loop B 0 False False = Exhausted True True"
    and "first_run_end B j n"
  shows "find_best_insertion_point B = n \<and> n + 4 < length B \<and> start_code_at B n
         \<and> find_next_start_code B (j + 4) = Some n"
proof -
  have "find_position_after_sps_pps B = n"
    unfolding find_position_after_sps_pps_def
    by (rule find_position_loop_reaches_run_end [OF assms(2)]) simp
  with assms(1) have "find_best_insertion_point B = n"
    by (simp add: find_best_insertion_point_def)
  moreover from assms(2) have f: "find_next_start_code B (j + 4) = Some n"
    using run_end_Some [of B j n] by (simp add: first_run_end_def)
  moreover from find_next_start_code_Some [OF f]
  have "n + 4 < length B" "start_code_at B n" by simp_all
  ultimately show ?thesis by simp
qed

theorem first_run_end_is_selected_witness:
  "find_best_insertion_point
     [0, 0, 0, 1, 7, 0, 0, 0, 1, 5, 0, 0, 0, 1, 8, 0, 0, 0, 1, 5, 9, 9, 9, 9, 9, 9, 9, 9] = 5"
proof -
  have e: "find_best_loop
     [0, 0, 0, 1, 7, 0, 0, 0, 1, 5, 0, 0, 0, 1, 8, 0, 0, 0, 1, 5, 9, 9, 9, 9, 9, 9, 9, 9]
     0 False False = Exhausted True True"
    by code_simp
  have f: "first_run_end
     [0, 0, 0, 1, 7, 0, 0, 0, 1, 5, 0, 0, 0, 1, 8, 0, 0, 0, 1, 5, 9, 9, 9, 9, 9, 9, 9, 9] 0 5"
    by code_simp
  from first_run_end_is_selected [OF e f] show ?thesis by blast
qed

end
